theory Spec2Isabelle
  imports Complex_Main "HOL-Library.Word"
begin

section \<open>Utility functions for creating TFRecord data sets (dataset\_util.py)\<close>

text \<open>
  The module has four groups of functions: the feature encoders, the reader of an
  examples list, the conversion of an XML tree to nested dictionaries, and the assembly
  of the input pipeline. Exceptions of the Python code are values of \<open>py_error\<close>.
\<close>

datatype py_error =
    KeyError | IndexError | AttributeError | TypeError | NotFoundError | ValueError
  | InvalidArgumentError

subsection \<open>Feature encoders\<close>

text \<open>
  The containers \<open>tf.train.Int64List\<close>, \<open>tf.train.BytesList\<close>, \<open>tf.train.FloatList\<close> and
  \<open>tf.train.Feature\<close> belong to the serialization library: a feature is a tagged union of
  an int64 list, a bytes list and a float list. An int64 is a 64-bit word and a byte
  string is a \<open>string\<close>.

  A Python float is a double: a finite value with a sign, a significand and an exponent,
  an infinity, or NaN. \<open>Float s m e\<close> has the value \<open>m * 2 ^ e\<close>, negated when \<open>s\<close> holds;
  a double has \<open>m < 2 ^ 53\<close>. \<open>float_equal\<close> is Python's \<open>==\<close> on floats: equal values,
  and NaN equal to nothing.
\<close>

type_synonym int64 = "64 word"

datatype py_float = Float bool nat int | Infinity bool | NaN

definition float_value :: "bool \<Rightarrow> nat \<Rightarrow> int \<Rightarrow> rat" where
  "float_value s m e = (if s then - 1 else 1) * of_nat m * 2 powi e"

fun float_equal :: "py_float \<Rightarrow> py_float \<Rightarrow> bool" where
  "float_equal (Float s m e) (Float s' m' e') = (float_value s m e = float_value s' m' e')"
| "float_equal (Infinity s) (Infinity s') = (s = s')"
| "float_equal _ _ = False"

text \<open>
  A float list holds 32-bit floats: a double put into it is converted to the nearest
  32-bit float, a tie going to the even significand, and a value past the largest
  32-bit float becomes an infinity. A 32-bit float has a significand below \<open>2 ^ 24\<close> and
  an exponent from -149 to 104. \<open>bit_length\<close> is the number of bits of a significand,
  \<open>round_half_even m d\<close> divides \<open>m\<close> by \<open>2 ^ d\<close> and rounds.
\<close>

fun bit_length :: "nat \<Rightarrow> nat" where
  "bit_length n = (if n = 0 then 0 else Suc (bit_length (n div 2)))"

declare bit_length.simps [simp del]

definition round_half_even :: "nat \<Rightarrow> nat \<Rightarrow> nat" where
  "round_half_even m d =
     (let q = m div 2 ^ d; r = m mod 2 ^ d; half = 2 ^ (d - 1)
      in if d = 0 \<or> r < half then q
         else if half < r then q + 1
         else if even q then q else q + 1)"

definition round_float32 :: "bool \<Rightarrow> nat \<Rightarrow> int \<Rightarrow> py_float" where
  "round_float32 s m e =
     (let q = max (e + int (bit_length m) - 24) (- 149);
          m' = (if q \<le> e then m * 2 ^ nat (e - q) else round_half_even m (nat (q - e)))
      in if 0 \<le> q \<and> 2 ^ 128 \<le> m' * 2 ^ nat q then Infinity s else Float s m' q)"

fun to_float32 :: "py_float \<Rightarrow> py_float" where
  "to_float32 (Float s m e) = round_float32 s m e"
| "to_float32 (Infinity s) = Infinity s"
| "to_float32 NaN = NaN"

text \<open>The floats that a 32-bit float can hold and that compare equal to themselves.\<close>

fun float32_value :: "py_float \<Rightarrow> bool" where
  "float32_value (Float s m e) =
     (\<exists>m' e'. m' < 2 ^ 24 \<and> - 149 \<le> e' \<and> e' \<le> 104
              \<and> float_value s m e = float_value s m' e')"
| "float32_value (Infinity s) = True"
| "float32_value NaN = False"

datatype int64_list = Int64List "int64 list"

datatype bytes_list = BytesList "string list"

datatype float_list = FloatList "py_float list"

datatype feature =
    Feature_int64_list int64_list
  | Feature_bytes_list bytes_list
  | Feature_float_list float_list

text \<open>
  \<open>tf.train.FloatList(value=v)\<close> converts the floats it is given; the other two
  containers hold what they are given.
\<close>

definition new_FloatList :: "py_float list \<Rightarrow> float_list" where
  "new_FloatList v = FloatList (map to_float32 v)"

definition int64_feature :: "int64 \<Rightarrow> feature" where
  "int64_feature v = Feature_int64_list (Int64List [v])"

definition int64_list_feature :: "int64 list \<Rightarrow> feature" where
  "int64_list_feature v = Feature_int64_list (Int64List v)"

definition bytes_feature :: "string \<Rightarrow> feature" where
  "bytes_feature v = Feature_bytes_list (BytesList [v])"

definition bytes_list_feature :: "string list \<Rightarrow> feature" where
  "bytes_list_feature v = Feature_bytes_list (BytesList v)"

definition float_list_feature :: "py_float list \<Rightarrow> feature" where
  "float_list_feature v = Feature_float_list (new_FloatList v)"

text \<open>
  The decoders that unwrap a container (the field accessors of the library). Each gives
  the list of the kind that is set, and nothing for another kind.
\<close>

fun int64_values :: "feature \<Rightarrow> int64 list option" where
  "int64_values (Feature_int64_list (Int64List vs)) = Some vs"
| "int64_values _ = None"

fun bytes_values :: "feature \<Rightarrow> string list option" where
  "bytes_values (Feature_bytes_list (BytesList vs)) = Some vs"
| "bytes_values _ = None"

fun float_values :: "feature \<Rightarrow> py_float list option" where
  "float_values (Feature_float_list (FloatList vs)) = Some vs"
| "float_values _ = None"

subsection \<open>The examples list\<close>

text \<open>
  A file is its contents, a string whose characters are code points below 256.
  \<open>GFile.readlines\<close> calls \<open>readline\<close> until it gives the empty string. The line reader
  of the library leaves every carriage return out of its result, ends a line after a
  newline and keeps the newline in the line; what stands after the last newline is a
  line as well, unless nothing but carriage returns stands there.
\<close>

fun split_lines :: "string \<Rightarrow> string list" where
  "split_lines [] = []"
| "split_lines (c # cs) =
     (if c = CHR 0x0A then [c] # split_lines cs
      else case split_lines cs of [] \<Rightarrow> [[c]] | l # ls \<Rightarrow> (c # l) # ls)"

definition readlines :: "string \<Rightarrow> string list" where
  "readlines contents = split_lines (filter (\<lambda>c. c \<noteq> CHR 0x0D) contents)"

text \<open>
  \<open>str.strip()\<close> removes the whitespace at both ends: the characters Python's
  \<open>str.isspace\<close> accepts, which below 256 are 9 to 13, 28 to 32, 133 and 160.
\<close>

definition is_space :: "char \<Rightarrow> bool" where
  "is_space c = (of_char c \<in> {9, 10, 11, 12, 13, 28, 29, 30, 31, 32, 133, 160 :: nat})"

definition strip :: "string \<Rightarrow> string" where
  "strip s = rev (dropWhile is_space (rev (dropWhile is_space s)))"

text \<open>
  \<open>str.split(sep)\<close> with a separator of one character cuts at every occurrence of it,
  keeps empty pieces, and gives one empty piece for the empty string.
\<close>

fun split :: "char \<Rightarrow> string \<Rightarrow> string list" where
  "split sep [] = [[]]"
| "split sep (c # cs) =
     (if c = sep then [] # split sep cs
      else case split sep cs of [] \<Rightarrow> [[c]] | w # ws \<Rightarrow> (c # w) # ws)"

text \<open>
  The list comprehension \<open>[line.strip().split(' ')[0] for line in lines]\<close>; the index
  \<open>[0]\<close> raises \<open>IndexError\<close> on an empty list.
\<close>

fun first_tokens :: "string list \<Rightarrow> py_error + string list" where
  "first_tokens [] = Inr []"
| "first_tokens (line # lines) =
     (case split CHR '' '' (strip line) of
        [] \<Rightarrow> Inl IndexError
      | tok # _ \<Rightarrow>
          (case first_tokens lines of Inl e \<Rightarrow> Inl e | Inr toks \<Rightarrow> Inr (tok # toks)))"

text \<open>
  The file system is a map from paths to contents; opening a path that is not there
  fails.
\<close>

definition read_examples_list :: "(string \<rightharpoonup> string) \<Rightarrow> string \<Rightarrow> py_error + string list" where
  "read_examples_list fs path =
     (case fs path of
        None \<Rightarrow> Inl NotFoundError
      | Some contents \<Rightarrow> first_tokens (readlines contents))"

text \<open>
  The first whitespace-delimited token of a line, as the description of the examples
  list words it: what \<open>line.split()[0]\<close> gives, and the empty string on a line without
  a token. It is the reference the code is compared with.
\<close>

definition first_whitespace_token :: "string \<Rightarrow> string" where
  "first_whitespace_token line = takeWhile (\<lambda>c. \<not> is_space c) (dropWhile is_space line)"

subsection \<open>XML trees to dictionaries\<close>

text \<open>
  A node of the tree shows its tag, its text (\<open>None\<close> when it has none) and its children;
  the tree is finite, and the recursion limit of the interpreter is not part of the model.
  A Python value is \<open>None\<close>, a string, a list or a dictionary; a dictionary is the list of
  its items in insertion order, with one item for a key.
\<close>

datatype xml = Element (tag: string) (text_of: "string option") (children: "xml list")

datatype pyval =
    PyNone
  | PyStr string
  | PyList "pyval list"
  | PyDict "(string \<times> pyval) list"

type_synonym pydict = "(string \<times> pyval) list"

definition getitem :: "pydict \<Rightarrow> string \<Rightarrow> py_error + pyval" where
  "getitem d k = (case map_of d k of None \<Rightarrow> Inl KeyError | Some v \<Rightarrow> Inr v)"

fun setitem :: "pydict \<Rightarrow> string \<Rightarrow> pyval \<Rightarrow> pydict" where
  "setitem [] k v = [(k, v)]"
| "setitem ((k', v') # d) k v =
     (if k' = k then (k, v) # d else (k', v') # setitem d k v)"

definition append_item :: "pyval \<Rightarrow> pyval \<Rightarrow> py_error + pyval" where
  "append_item l v =
     (case l of PyList vs \<Rightarrow> Inr (PyList (vs @ [v])) | _ \<Rightarrow> Inl AttributeError)"

definition py_text :: "string option \<Rightarrow> pyval" where
  "py_text txt = (case txt of None \<Rightarrow> PyNone | Some s \<Rightarrow> PyStr s)"

text \<open>
  \<open>recursive_parse_xml_to_dict\<close>: a node without children gives \<open>{tag: text}\<close>;
  \<open>for_child\<close> is the loop over the children, with \<open>result\<close> the dictionary built so far.
\<close>

fun recursive_parse_xml_to_dict :: "xml \<Rightarrow> py_error + pyval"
and for_child :: "xml list \<Rightarrow> pydict \<Rightarrow> py_error + pydict" where
  "recursive_parse_xml_to_dict (Element t txt cs) =
     (if cs = [] then Inr (PyDict [(t, py_text txt)])
      else case for_child cs [] of
             Inl e \<Rightarrow> Inl e
           | Inr result \<Rightarrow> Inr (PyDict [(t, PyDict result)]))"
| "for_child [] result = Inr result"
| "for_child (child # rest) result =
     (case recursive_parse_xml_to_dict child of
        Inl e \<Rightarrow> Inl e
      | Inr (PyDict child_result) \<Rightarrow>
          (case getitem child_result (tag child) of
             Inl e \<Rightarrow> Inl e
           | Inr v \<Rightarrow>
               if tag child \<noteq> ''object'' then for_child rest (setitem result (tag child) v)
               else
                 (let result' = (if tag child \<notin> fst ` set result
                                 then setitem result (tag child) (PyList [])
                                 else result)
                  in case getitem result' (tag child) of
                       Inl e \<Rightarrow> Inl e
                     | Inr l \<Rightarrow>
                         (case append_item l v of
                            Inl e \<Rightarrow> Inl e
                          | Inr l' \<Rightarrow> for_child rest (setitem result' (tag child) l'))))
      | Inr _ \<Rightarrow> Inl TypeError)"

subsection \<open>The input pipeline\<close>

text \<open>
  \<open>read_dataset\<close> builds a dataset and does not run it: every method of
  \<open>tf.data.Dataset\<close> returns a new dataset that records the transformation and its
  arguments. A dataset is therefore the tensor it slices and the transformations applied
  to it, in the order of the calls. The file-reading function gives the records of a file.
\<close>

type_synonym filename = string

datatype ('r, 'd) transformation =
    Shard nat nat
  | Repeat "nat option"
  | Shuffle nat bool
  | Interleave "filename \<Rightarrow> 'r list" nat nat
  | Map "'r \<Rightarrow> 'd" nat
  | Prefetch nat

record ('r, 'd) dataset =
  tensor_slices :: "filename list"
  transformations :: "('r, 'd) transformation list"

definition from_tensor_slices :: "filename list \<Rightarrow> ('r, 'd) dataset" where
  "from_tensor_slices filenames = \<lparr>tensor_slices = filenames, transformations = []\<rparr>"

definition shard :: "nat \<Rightarrow> nat \<Rightarrow> ('r, 'd) dataset \<Rightarrow> ('r, 'd) dataset" where
  "shard num_shards index ds =
     ds\<lparr>transformations := transformations ds @ [Shard num_shards index]\<rparr>"

definition repeat :: "nat option \<Rightarrow> ('r, 'd) dataset \<Rightarrow> ('r, 'd) dataset" where
  "repeat count ds = ds\<lparr>transformations := transformations ds @ [Repeat count]\<rparr>"

definition shuffle_dataset :: "nat \<Rightarrow> bool \<Rightarrow> ('r, 'd) dataset \<Rightarrow> ('r, 'd) dataset" where
  "shuffle_dataset buffer_size reshuffle_each_iteration ds =
     ds\<lparr>transformations :=
          transformations ds @ [Shuffle buffer_size reshuffle_each_iteration]\<rparr>"

definition interleave ::
  "(filename \<Rightarrow> 'r list) \<Rightarrow> nat \<Rightarrow> nat \<Rightarrow> ('r, 'd) dataset \<Rightarrow> ('r, 'd) dataset" where
  "interleave map_func cycle_length block_length ds =
     ds\<lparr>transformations :=
          transformations ds @ [Interleave map_func cycle_length block_length]\<rparr>"

definition map_dataset :: "('r \<Rightarrow> 'd) \<Rightarrow> nat \<Rightarrow> ('r, 'd) dataset \<Rightarrow> ('r, 'd) dataset" where
  "map_dataset map_func num_parallel_calls ds =
     ds\<lparr>transformations := transformations ds @ [Map map_func num_parallel_calls]\<rparr>"

definition prefetch :: "nat \<Rightarrow> ('r, 'd) dataset \<Rightarrow> ('r, 'd) dataset" where
  "prefetch buffer_size ds =
     ds\<lparr>transformations := transformations ds @ [Prefetch buffer_size]\<rparr>"

text \<open>
  The configuration (an \<open>InputReader\<close>). Its sizes are not negative; \<open>num_epochs\<close> can
  be unset.
\<close>

record input_reader =
  num_epochs :: "nat option"
  shuffle :: bool
  filenames_shuffle_buffer_size :: nat
  shuffle_buffer_size :: nat
  num_readers :: nat
  prefetch_buffer_size :: nat

text \<open>\<open>config.num_epochs or None\<close>: Python's \<open>or\<close> gives \<open>None\<close> for \<open>None\<close> and for 0.\<close>

definition or_None :: "nat option \<Rightarrow> nat option" where
  "or_None v = (case v of None \<Rightarrow> None | Some n \<Rightarrow> if n = 0 then None else Some n)"

text \<open>
  \<open>tf.concat\<close> of a list of tensors along axis 0: it raises \<open>ValueError\<close> for the empty
  list and is the concatenation otherwise.
\<close>

definition tf_concat :: "'a list list \<Rightarrow> py_error + 'a list" where
  "tf_concat tensors = (if tensors = [] then Inl ValueError else Inr (concat tensors))"

text \<open>
  \<open>read_dataset\<close>. Its first argument is the state of the file system as
  \<open>tf.matching_files\<close> shows it: the paths that match a pattern. With no pattern at
  all the call of \<open>tf.concat\<close> raises and no dataset is built.
\<close>

definition read_dataset ::
  "(string \<Rightarrow> filename list) \<Rightarrow> (filename \<Rightarrow> 'r list) \<Rightarrow> ('r \<Rightarrow> 'd) \<Rightarrow> string list \<Rightarrow>
   input_reader \<Rightarrow> nat \<Rightarrow> nat \<Rightarrow> py_error + ('r, 'd) dataset" where
  "read_dataset matching_files file_read_func decode_func input_files config
     num_workers worker_index =
     (case tf_concat (map matching_files input_files) of
        Inl e \<Rightarrow> Inl e
      | Inr filenames \<Rightarrow> Inr
     (let dataset = from_tensor_slices filenames;
          dataset = shard num_workers worker_index dataset;
          dataset = repeat (or_None (num_epochs config)) dataset;
          dataset = (if shuffle config
                     then shuffle_dataset (filenames_shuffle_buffer_size config) True dataset
                     else dataset);
          cycle_length = min (num_readers config) (length filenames);
          dataset = interleave file_read_func cycle_length 1 dataset;
          dataset = (if shuffle config
                     then shuffle_dataset (shuffle_buffer_size config) True dataset
                     else dataset);
          dataset = map_dataset decode_func (num_readers config) dataset
      in prefetch (prefetch_buffer_size config) dataset))"

text \<open>
  The stage sequence as the description of the pipeline assembler lists it: expand the
  patterns, shard, repeat, shuffle the file names when shuffling is on, interleave the
  reads, shuffle the records when shuffling is on, decode, prefetch.
\<close>

definition expand_patterns :: "(string \<Rightarrow> filename list) \<Rightarrow> string list \<Rightarrow> filename list" where
  "expand_patterns matching_files input_files = concat (map matching_files input_files)"

definition stage_sequence ::
  "(filename \<Rightarrow> 'r list) \<Rightarrow> ('r \<Rightarrow> 'd) \<Rightarrow> input_reader \<Rightarrow> nat \<Rightarrow> nat \<Rightarrow> nat \<Rightarrow>
   ('r, 'd) transformation list" where
  "stage_sequence file_read_func decode_func config num_workers worker_index n_files =
     [Shard num_workers worker_index,
      Repeat (if num_epochs config = None \<or> num_epochs config = Some 0 then None
              else num_epochs config)]
     @ (if shuffle config then [Shuffle (filenames_shuffle_buffer_size config) True] else [])
     @ [Interleave file_read_func (min (num_readers config) n_files) 1]
     @ (if shuffle config then [Shuffle (shuffle_buffer_size config) True] else [])
     @ [Map decode_func (num_readers config), Prefetch (prefetch_buffer_size config)]"

subsection \<open>What the file-level transformations produce\<close>

text \<open>
  A sequence of file paths is a finite list, or a non-empty list repeated without end.
  \<open>seq_nth\<close> is the element a consumer gets at a position, \<open>None\<close> past the end.
\<close>

datatype 'a lazy_seq = Finite "'a list" | Forever "'a list"

fun seq_nth :: "'a lazy_seq \<Rightarrow> nat \<Rightarrow> 'a option" where
  "seq_nth (Finite xs) k = (if k < length xs then Some (xs ! k) else None)"
| "seq_nth (Forever xs) k = (if xs = [] then None else Some (xs ! (k mod length xs)))"

text \<open>
  Modelled from the spec: \<open>Dataset.shard\<close> is the library's; the spec has it keep the
  elements whose position \<open>index\<close> satisfies \<open>index mod worker_count = worker_index\<close>.
  \<open>shard_indexed\<close> keeps the positions with the elements.
\<close>

definition shard_indexed :: "nat \<Rightarrow> nat \<Rightarrow> 'a list \<Rightarrow> (nat \<times> 'a) list" where
  "shard_indexed n i xs = filter (\<lambda>(k, x). k mod n = i) (enumerate 0 xs)"

definition shard_elems :: "nat \<Rightarrow> nat \<Rightarrow> 'a list \<Rightarrow> 'a list" where
  "shard_elems n i xs = map snd (shard_indexed n i xs)"

fun shard_seq :: "nat \<Rightarrow> nat \<Rightarrow> 'a lazy_seq \<Rightarrow> 'a lazy_seq" where
  "shard_seq n i (Finite xs) = Finite (shard_elems n i xs)"
| "shard_seq n i (Forever xs) =
     Forever (map (\<lambda>k. xs ! ((k * n + i) mod length xs)) [0..<length xs])"

text \<open>
  Modelled from the spec: \<open>Dataset.repeat\<close> is the library's; the spec has it repeat the
  sequence \<open>count\<close> times, or without end when the count is unset. The empty sequence
  repeated without end is the empty sequence.
\<close>

fun repeat_seq :: "nat option \<Rightarrow> 'a lazy_seq \<Rightarrow> 'a lazy_seq" where
  "repeat_seq (Some n) (Finite xs) = Finite (concat (replicate n xs))"
| "repeat_seq None (Finite xs) = (if xs = [] then Finite [] else Forever xs)"
| "repeat_seq (Some n) (Forever xs) = (if n = 0 then Finite [] else Forever xs)"
| "repeat_seq None (Forever xs) = Forever xs"

text \<open>
  The file paths after the first \<open>k\<close> transformations of a dataset. Sharding needs
  \<open>worker_index < worker_count\<close>; the order after a shuffle and the records of the later
  stages are the runtime's and have no value here.
\<close>

fun file_stage :: "('r, 'd) transformation \<Rightarrow> filename lazy_seq \<Rightarrow> filename lazy_seq option" where
  "file_stage (Shard n i) s = (if i < n then Some (shard_seq n i s) else None)"
| "file_stage (Repeat count) s = Some (repeat_seq count s)"
| "file_stage _ s = None"

fun file_stages ::
  "('r, 'd) transformation list \<Rightarrow> filename lazy_seq \<Rightarrow> filename lazy_seq option" where
  "file_stages [] s = Some s"
| "file_stages (t # ts) s =
     (case file_stage t s of None \<Rightarrow> None | Some s' \<Rightarrow> file_stages ts s')"

definition file_paths :: "nat \<Rightarrow> ('r, 'd) dataset \<Rightarrow> filename lazy_seq option" where
  "file_paths k ds = file_stages (take k (transformations ds)) (Finite (tensor_slices ds))"

subsection \<open>Auxiliary notions\<close>

text \<open>
  The dictionaries the loop of the parser builds: no key twice, and a list under the key
  \<open>object\<close> whenever the key is there.
\<close>

definition well_formed :: "pydict \<Rightarrow> bool" where
  "well_formed d = (distinct (map fst d) \<and>
     (case map_of d ''object'' of None \<Rightarrow> True | Some (PyList vs) \<Rightarrow> True | Some _ \<Rightarrow> False))"

text \<open>The value a node contributes to its parent: what the parser stores under its tag.\<close>

definition node_value :: "xml \<Rightarrow> pyval" where
  "node_value x = (case recursive_parse_xml_to_dict x of Inr (PyDict [(k, v)]) \<Rightarrow> v | _ \<Rightarrow> PyNone)"

definition object_list :: "pydict \<Rightarrow> pyval list" where
  "object_list d = (case map_of d ''object'' of Some (PyList vs) \<Rightarrow> vs | _ \<Rightarrow> [])"

text \<open>The part of a stripped line before its first space.\<close>

definition space_token :: "string \<Rightarrow> string" where
  "space_token line = takeWhile (\<lambda>c. c \<noteq> CHR '' '') (strip line)"

fun is_interleave :: "('r, 'd) transformation \<Rightarrow> bool" where
  "is_interleave (Interleave map_func cycle_length block_length) = True"
| "is_interleave _ = False"

text \<open>A configuration and a file system for the concrete evaluations.\<close>

definition example_config :: "nat option \<Rightarrow> input_reader" where
  "example_config epochs =
     \<lparr>num_epochs = epochs, shuffle = False, filenames_shuffle_buffer_size = 100,
      shuffle_buffer_size = 2048, num_readers = 4, prefetch_buffer_size = 8\<rparr>"

definition example_files :: "string \<Rightarrow> filename list" where
  "example_files pattern =
     (if pattern = ''train-*'' then [''train-0'', ''train-1'', ''train-2'']
      else if pattern = ''train-1*'' then [''train-1'']
      else [])"

section \<open>Feature encoders\<close>

lemma bit_length_0: "bit_length 0 = 0"
  by (simp add: bit_length.simps)

lemma bit_length_pos: "0 < n \<Longrightarrow> bit_length n = Suc (bit_length (n div 2))"
  by (subst bit_length.simps) simp

lemma bit_length_bounds: "0 < n \<Longrightarrow> 2 ^ (bit_length n - 1) \<le> n \<and> n < 2 ^ bit_length n"
proof (induction n rule: bit_length.induct)
  case (1 n)
  show ?case
  proof (cases "n div 2 = 0")
    case True
    then have "n = 1" using "1.prems" by auto
    then show ?thesis by (simp add: bit_length_pos bit_length_0)
  next
    case False
    then have ih: "2 ^ (bit_length (n div 2) - 1) \<le> n div 2 \<and> n div 2 < 2 ^ bit_length (n div 2)"
      using "1.IH" "1.prems" by simp
    have bl: "bit_length n = Suc (bit_length (n div 2))" using "1.prems" by (rule bit_length_pos)
    have pos: "0 < bit_length (n div 2)" using False by (simp add: bit_length_pos)
    then obtain j where j: "bit_length (n div 2) = Suc j" by (cases "bit_length (n div 2)") auto
    have "2 * 2 ^ j \<le> n" using ih j by simp presburger
    moreover have "n < 2 * 2 ^ Suc j" using ih j by simp presburger
    ultimately show ?thesis using bl j by simp
  qed
qed

lemma round_half_even_exact: "round_half_even (n * 2 ^ d) d = n"
  by (cases d) (simp_all add: round_half_even_def)

lemma round_float32_exact:
  fixes m m1 :: nat and e e1 :: int
  assumes m1: "m1 < 2 ^ 24" and lo: "- 149 \<le> e1" and hi: "e1 \<le> 104"
    and eq: "(of_nat m * 2 powi e :: rat) = of_nat m1 * 2 powi e1"
  shows "\<exists>m' q. round_float32 s m e = Float s m' q \<and> (of_nat m' * 2 powi q :: rat) = of_nat m * 2 powi e"
proof -
  define q where "q = max (e + int (bit_length m) - 24) (- 149)"
  define m' where "m' = (if q \<le> e then m * 2 ^ nat (e - q) else round_half_even m (nat (q - e)))"
  have r: "round_float32 s m e =
      (if 0 \<le> q \<and> 2 ^ 128 \<le> m' * 2 ^ nat q then Infinity s else Float s m' q)"
    unfolding round_float32_def Let_def m'_def q_def by (rule refl)
  have val: "(of_nat m' * 2 powi q :: rat) = of_nat m * 2 powi e"
  proof (cases "m = 0")
    case True
    then have "m' = 0" by (simp add: m'_def round_half_even_def)
    then show ?thesis using True by simp
  next
    case False
    then have mpos: "0 < m" by simp
    have b: "2 ^ (bit_length m - 1) \<le> m" and bpos: "0 < bit_length m"
      using bit_length_bounds[OF mpos] mpos by (auto simp: bit_length_pos)
    have "(2 powi (int (bit_length m) - 1 + e) :: rat) \<le> of_nat m * 2 powi e"
    proof -
      have "(2 powi (int (bit_length m) - 1) :: rat) = 2 ^ (bit_length m - 1)"
        using bpos by (simp add: power_int_def nat_diff_distrib')
      also have "\<dots> \<le> of_nat m" using b by (metis of_nat_le_iff of_nat_numeral of_nat_power)
      finally show ?thesis by (simp add: power_int_add mult_right_mono)
    qed
    also have "\<dots> = of_nat m1 * 2 powi e1" by (rule eq)
    also have "\<dots> < 2 ^ 24 * 2 powi e1"
    proof -
      have "(of_nat m1 :: rat) < 2 ^ 24" using m1 by (metis of_nat_less_iff of_nat_numeral of_nat_power)
      then show ?thesis by (simp add: mult_strict_right_mono)
    qed
    also have "\<dots> = 2 powi (24 + e1)" by (simp add: power_int_add)
    finally have lt: "(2 powi (int (bit_length m) - 1 + e) :: rat) < 2 powi (24 + e1)" .
    have "int (bit_length m) - 1 + e < 24 + e1"
    proof (rule ccontr)
      assume "\<not> int (bit_length m) - 1 + e < 24 + e1"
      then have "24 + e1 \<le> int (bit_length m) - 1 + e" by simp
      then have "(2 powi (24 + e1) :: rat) \<le> 2 powi (int (bit_length m) - 1 + e)"
        by (rule power_int_increasing) simp
      then show False using lt by simp
    qed
    then have q1: "q \<le> e1" using lo by (simp add: q_def)
    define N where "N = m1 * 2 ^ nat (e1 - q)"
    have N: "(of_nat N * 2 powi q :: rat) = of_nat m * 2 powi e"
    proof -
      have "(of_nat N :: rat) = of_nat m1 * 2 powi (e1 - q)"
        using q1 by (simp add: N_def power_int_def)
      then have "(of_nat N * 2 powi q :: rat) = of_nat m1 * (2 powi (e1 - q) * 2 powi q)" by simp
      also have "\<dots> = of_nat m1 * 2 powi e1" by (simp flip: power_int_add)
      finally show ?thesis using eq by simp
    qed
    show ?thesis
    proof (cases "q \<le> e")
      case True
      then have "(of_nat m' :: rat) = of_nat m * 2 powi (e - q)"
        by (simp add: m'_def power_int_def)
      then have "(of_nat m' * 2 powi q :: rat) = of_nat m * (2 powi (e - q) * 2 powi q)" by simp
      also have "\<dots> = of_nat m * 2 powi e" by (simp flip: power_int_add)
      finally show ?thesis .
    next
      case False
      have "(of_nat (N * 2 ^ nat (q - e)) :: rat) = of_nat N * 2 powi (q - e)"
        using False by (simp add: power_int_def)
      also have "\<dots> = of_nat N * 2 powi q * 2 powi (- e)"
        by (simp add: power_int_diff power_int_minus field_simps)
      also have "\<dots> = of_nat m * 2 powi e * 2 powi (- e)" using N by simp
      also have "\<dots> = of_nat m" by (simp add: power_int_minus)
      finally have "m = N * 2 ^ nat (q - e)" by (metis of_nat_eq_iff)
      then have "m' = N" using False by (simp add: m'_def round_half_even_exact)
      then show ?thesis using N by simp
    qed
  qed
  have "\<not> (0 \<le> q \<and> 2 ^ 128 \<le> m' * 2 ^ nat q)"
  proof
    assume a: "0 \<le> q \<and> 2 ^ 128 \<le> m' * 2 ^ nat q"
    then have "(of_nat (m' * 2 ^ nat q) :: rat) = of_nat m' * 2 powi q"
      by (simp add: power_int_def)
    also have "\<dots> = of_nat m1 * 2 powi e1" using val eq by simp
    also have "\<dots> < 2 ^ 24 * 2 powi e1"
    proof -
      have "(of_nat m1 :: rat) < 2 ^ 24" using m1 by (metis of_nat_less_iff of_nat_numeral of_nat_power)
      then show ?thesis by (simp add: mult_strict_right_mono)
    qed
    also have "\<dots> \<le> 2 ^ 24 * 2 powi 104"
    proof -
      have "(2 powi e1 :: rat) \<le> 2 powi 104" using hi by (rule power_int_increasing) simp
      then show ?thesis by simp
    qed
    also have "\<dots> = 2 ^ 128" by simp
    finally have "m' * 2 ^ nat q < 2 ^ 128"
      by (metis of_nat_less_iff of_nat_numeral of_nat_power)
    then show False using a by simp
  qed
  then show ?thesis using r val by auto
qed

lemma to_float32_exact: "float32_value x \<Longrightarrow> float_equal (to_float32 x) x"
proof (cases x)
  case (Float s m e)
  assume "float32_value x"
  then obtain m1 e1 where h: "m1 < 2 ^ 24" "- 149 \<le> e1" "e1 \<le> 104"
    and v: "float_value s m e = float_value s m1 e1"
    using Float by auto
  have "(of_nat m * 2 powi e :: rat) = of_nat m1 * 2 powi e1"
    using v by (simp add: float_value_def split: if_splits)
  from round_float32_exact[OF h this, of s] obtain m' q where
    "round_float32 s m e = Float s m' q" "(of_nat m' * 2 powi q :: rat) = of_nat m * 2 powi e"
    by blast
  then show ?thesis using Float by (simp add: float_value_def)
next
  case (Infinity s)
  then show ?thesis by simp
next
  case NaN
  assume "float32_value x"
  then show ?thesis using NaN by simp
qed

text \<open>
  C7, as amended: the int64 and the bytes encoders give a container whose unwrapped list
  is the input exactly: the singleton list of the value for the scalar encoders, the
  list unchanged for the list encoders. The float encoder gives a container whose
  unwrapped list is the input with every float converted to a 32-bit float; it equals
  the input, float by float, whenever every float of the input is a value that a 32-bit
  float holds. All of it holds for the empty list as well.
\<close>

theorem encoders_round_trip:
  "int64_values (int64_feature i) = Some [i]
   \<and> int64_values (int64_list_feature is) = Some is
   \<and> bytes_values (bytes_feature b) = Some [b]
   \<and> bytes_values (bytes_list_feature bs) = Some bs
   \<and> float_values (float_list_feature fs) = Some (map to_float32 fs)
   \<and> ((\<forall>x\<in>set fs. float32_value x) \<longrightarrow> list_all2 float_equal (map to_float32 fs) fs)"
proof -
  have "list_all2 float_equal (map to_float32 fs) fs" if "\<forall>x\<in>set fs. float32_value x"
    using that by (induction fs) (simp_all add: to_float32_exact)
  then show ?thesis
    by (simp add: int64_feature_def int64_list_feature_def bytes_feature_def
        bytes_list_feature_def float_list_feature_def new_FloatList_def)
qed

text \<open>The floats 1.5, -0.25 and the infinity come back as they went in.\<close>

theorem encoders_round_trip_witness:
  "float32_value (Float False 3 (- 1)) \<and> float32_value (Float True 1 (- 2))
   \<and> float32_value (Infinity False)
   \<and> float_values (float_list_feature [Float False 3 (- 1), Float True 1 (- 2), Infinity False])
       = Some [Float False 12582912 (- 23), Float True 8388608 (- 25), Infinity False]
   \<and> list_all2 float_equal
        [Float False 12582912 (- 23), Float True 8388608 (- 25), Infinity False]
        [Float False 3 (- 1), Float True 1 (- 2), Infinity False]"
proof -
  have a: "float32_value (Float False 3 (- 1))"
    unfolding float32_value.simps
    by (rule exI[of _ 3], rule exI[of _ "- 1"]) simp
  have b: "float32_value (Float True 1 (- 2))"
    unfolding float32_value.simps
    by (rule exI[of _ 1], rule exI[of _ "- 2"]) simp
  have c: "float32_value (Infinity False)" by simp
  have all: "\<forall>x\<in>set [Float False 3 (- 1), Float True 1 (- 2), Infinity False]. float32_value x"
    using a b c by simp
  have bl: "bit_length 3 = 2" "bit_length (Suc 0) = 1"
    by (simp_all add: bit_length_pos bit_length_0)
  have conv: "map to_float32 [Float False 3 (- 1), Float True 1 (- 2), Infinity False]
      = [Float False 12582912 (- 23), Float True 8388608 (- 25), Infinity False]"
    by (simp add: round_float32_def Let_def bl)
  note t = encoders_round_trip[of _ _ _ _ "[Float False 3 (- 1), Float True 1 (- 2), Infinity False]"]
  have "float_values (float_list_feature [Float False 3 (- 1), Float True 1 (- 2), Infinity False])
       = Some [Float False 12582912 (- 23), Float True 8388608 (- 25), Infinity False]"
    using t unfolding conv by blast
  moreover have "list_all2 float_equal
        [Float False 12582912 (- 23), Float True 8388608 (- 25), Infinity False]
        [Float False 3 (- 1), Float True 1 (- 2), Infinity False]"
    using t all unfolding conv by blast
  ultimately show ?thesis using a b c by blast
qed

text \<open>
  The claim as stated fails for a float that no 32-bit float holds: the double nearest
  to 0.1 is \<open>3602879701896397 * 2 ^ -55\<close>, and it comes back as
  \<open>13421773 * 2 ^ -27\<close>, which is 0.100000001490116...
\<close>

theorem float_list_feature_counterexample:
  "float_values (float_list_feature [Float False 3602879701896397 (- 55)])
     = Some [Float False 13421773 (- 27)]
   \<and> \<not> float_equal (Float False 13421773 (- 27)) (Float False 3602879701896397 (- 55))"
proof -
  have "bit_length 3602879701896397 = 52"
    by (simp add: bit_length_pos bit_length_0)
  then have "round_float32 False 3602879701896397 (- 55) = Float False 13421773 (- 27)"
    by (simp add: round_float32_def round_half_even_def Let_def)
  then show ?thesis
    by (simp add: float_list_feature_def new_FloatList_def float_value_def)
qed

section \<open>The examples list\<close>

lemma concat_split_lines: "concat (split_lines s) = s"
  by (induction s) (auto split: list.splits)

lemma concat_readlines: "concat (readlines s) = filter (\<lambda>c. c \<noteq> CHR 0x0D) s"
  by (simp add: readlines_def concat_split_lines)





lemma split_lines_lines:
  "l \<in> set (split_lines s) \<Longrightarrow> l \<noteq> [] \<and> CHR 0x0A \<notin> set (butlast l)"
proof (induction s arbitrary: l)
  case Nil
  then show ?case by simp
next
  case (Cons c cs)
  show ?case
  proof (cases "c = CHR 0x0A")
    case True
    then show ?thesis using Cons by auto
  next
    case False
    show ?thesis
    proof (cases "split_lines cs")
      case Nil
      then show ?thesis using Cons.prems False by auto
    next
      case lines: (Cons l' ls)
      have "l' \<noteq> [] \<and> CHR 0x0A \<notin> set (butlast l')" using Cons.IH[of l'] lines by simp
      then show ?thesis using Cons.prems Cons.IH[of l] lines False by auto
    qed
  qed
qed

lemma split_pieces: "w \<in> set (split sep s) \<Longrightarrow> sep \<notin> set w"
  by (induction s arbitrary: w) (auto split: if_splits list.splits)

lemma length_split: "length (split sep s) = Suc (count_list s sep)"
  by (induction s) (auto split: list.splits)

lemma split_first: "\<exists>ws. split sep s = takeWhile (\<lambda>c. c \<noteq> sep) s # ws"
  by (induction s) (auto split: list.splits)

lemma first_tokens_eq: "first_tokens lines = Inr (map space_token lines)"
proof (induction lines)
  case Nil
  then show ?case by simp
next
  case (Cons line lines)
  obtain ws where "split CHR '' '' (strip line) = space_token line # ws"
    using split_first[of "CHR '' ''" "strip line"] by (auto simp: space_token_def)
  then show ?case using Cons by simp
qed

lemma takeWhile_append_all:
  "\<forall>w\<in>set ws. P w \<Longrightarrow> takeWhile (\<lambda>c. \<not> P c) (xs @ ws) = takeWhile (\<lambda>c. \<not> P c) xs"
proof (induction xs)
  case Nil
  then show ?case by (cases ws) auto
next
  case (Cons a xs)
  then show ?case by simp
qed

lemma takeWhile_rstrip:
  "takeWhile (\<lambda>c. \<not> P c) (rev (dropWhile P (rev s))) = takeWhile (\<lambda>c. \<not> P c) s"
proof -
  have "s = rev (dropWhile P (rev s)) @ rev (takeWhile P (rev s))"
    by (metis rev_append rev_rev_ident takeWhile_dropWhile_id)
  moreover have "\<forall>w\<in>set (rev (takeWhile P (rev s))). P w"
    by (auto dest: set_takeWhileD)
  ultimately show ?thesis using takeWhile_append_all by metis
qed

lemma space_token_whitespace:
  assumes "\<forall>c\<in>set (strip line). is_space c \<longrightarrow> c = CHR '' ''"
  shows "space_token line = first_whitespace_token line"
proof -
  have sp: "is_space CHR '' ''" by (simp add: is_space_def)
  have "takeWhile (\<lambda>c. c \<noteq> CHR '' '') (strip line) = takeWhile (\<lambda>c. \<not> is_space c) (strip line)"
    by (rule takeWhile_cong) (use assms sp in auto)
  also have "\<dots> = takeWhile (\<lambda>c. \<not> is_space c) (dropWhile is_space line)"
    unfolding strip_def by (rule takeWhile_rstrip)
  finally show ?thesis by (simp add: space_token_def first_whitespace_token_def)
qed


text \<open>
  C5, as amended: for a file that can be read, the result has one entry for each line, in
  the order of the file, and the entry is the part of the stripped line before its first
  space character. The separator is the space character alone: the entry is the first
  whitespace-delimited token of the line whenever every whitespace character inside the
  stripped lines is a space, as in the file with the lines \<open>a 1\<close>, \<open>b 2\<close>, \<open>c 3\<close>.
\<close>

theorem read_examples_list_space_token:
  assumes "fs path = Some contents"
  shows "read_examples_list fs path =
           Inr (map (\<lambda>line. takeWhile (\<lambda>c. c \<noteq> CHR '' '') (strip line)) (readlines contents))
       \<and> ((\<forall>line\<in>set (readlines contents). \<forall>c\<in>set (strip line). is_space c \<longrightarrow> c = CHR '' '')
            \<longrightarrow> read_examples_list fs path = Inr (map first_whitespace_token (readlines contents)))"
proof -
  have 1: "read_examples_list fs path = Inr (map space_token (readlines contents))"
    using assms by (simp add: read_examples_list_def first_tokens_eq)
  have 2: "map space_token (readlines contents) = map first_whitespace_token (readlines contents)"
    if "\<forall>line\<in>set (readlines contents). \<forall>c\<in>set (strip line). is_space c \<longrightarrow> c = CHR '' ''"
    using that by (intro map_cong refl space_token_whitespace) blast
  show ?thesis using 1 2 by (auto simp: space_token_def[abs_def])
qed

theorem read_examples_list_space_token_witness:
  "[''trainval.txt'' \<mapsto> ''a 1\<newline>b 2\<newline>c 3\<newline>''] ''trainval.txt'' = Some ''a 1\<newline>b 2\<newline>c 3\<newline>''
   \<and> read_examples_list [''trainval.txt'' \<mapsto> ''a 1\<newline>b 2\<newline>c 3\<newline>''] ''trainval.txt''
       = Inr [''a'', ''b'', ''c'']
   \<and> map first_whitespace_token (readlines ''a 1\<newline>b 2\<newline>c 3\<newline>'') = [''a'', ''b'', ''c'']"
  using read_examples_list_space_token[of "[''trainval.txt'' \<mapsto> ''a 1\<newline>b 2\<newline>c 3\<newline>'']"
      "''trainval.txt''" "''a 1\<newline>b 2\<newline>c 3\<newline>''"]
  by (simp add: readlines_def strip_def is_space_def first_whitespace_token_def)

text \<open>
  The claim as stated fails on a line whose separator is a tab: the entry is the whole
  line \<open>a<TAB>1\<close>, and the first whitespace-delimited token is \<open>a\<close>.
\<close>

theorem first_token_tab_counterexample:
  "read_examples_list [''trainval.txt'' \<mapsto> [CHR ''a'', CHR 0x09, CHR ''1'', CHR 0x0A]] ''trainval.txt''
     = Inr [[CHR ''a'', CHR 0x09, CHR ''1'']]
   \<and> map first_whitespace_token (readlines [CHR ''a'', CHR 0x09, CHR ''1'', CHR 0x0A]) = [''a'']
   \<and> read_examples_list [''trainval.txt'' \<mapsto> [CHR ''a'', CHR 0x09, CHR ''1'', CHR 0x0A]] ''trainval.txt''
     \<noteq> Inr (map first_whitespace_token (readlines [CHR ''a'', CHR 0x09, CHR ''1'', CHR 0x0A]))"
  by (simp add: read_examples_list_def readlines_def strip_def is_space_def
      first_whitespace_token_def)



section \<open>XML trees to dictionaries\<close>

lemma map_of_setitem: "map_of (setitem d k v) = (map_of d)(k \<mapsto> v)"
  by (induction d k v rule: setitem.induct) (auto simp: fun_eq_iff)

lemma keys_setitem: "fst ` set (setitem d k v) = insert k (fst ` set d)"
  by (induction d k v rule: setitem.induct) auto

lemma distinct_setitem: "distinct (map fst d) \<Longrightarrow> distinct (map fst (setitem d k v))"
  by (induction d k v rule: setitem.induct) (auto simp: keys_setitem)

lemma parse_total:
  "\<exists>v. recursive_parse_xml_to_dict x = Inr (PyDict [(tag x, v)]) \<and> (\<forall>vs. v \<noteq> PyList vs)"
  "well_formed result \<Longrightarrow> \<exists>result'. for_child cs result = Inr result' \<and> well_formed result'"
proof (induction x and cs result rule: recursive_parse_xml_to_dict_for_child.induct)
  case (1 tg tx cs)
  show ?case
  proof (cases "cs = []")
    case True
    then show ?thesis by (simp add: py_text_def split: option.splits)
  next
    case False
    have "well_formed []" by (simp add: well_formed_def)
    from "1.IH"[OF False this] obtain result' where "for_child cs [] = Inr result'" by blast
    with False show ?thesis by simp
  qed
next
  case (2 result)
  then show ?case by simp
next
  case (3 child rest result)
  obtain v where v: "recursive_parse_xml_to_dict child = Inr (PyDict [(tag child, v)])"
    and nl: "\<forall>vs. v \<noteq> PyList vs"
    using "3.IH"(1) by blast
  show ?case
  proof (cases "tag child = ''object''")
    case False
    have wf: "well_formed (setitem result (tag child) v)"
      using "3.prems" False by (auto simp: well_formed_def distinct_setitem map_of_setitem)
    have g: "getitem [(tag child, v)] (tag child) = Inr v" by (simp add: getitem_def)
    from "3.IH"(2)[OF v refl g False wf] obtain result' where
      "for_child rest (setitem result (tag child) v) = Inr result'" "well_formed result'" by blast
    then show ?thesis using v g False by simp
  next
    case True
    define result1 where "result1 = (if tag child \<notin> fst ` set result
                                 then setitem result (tag child) (PyList []) else result)"
    have g: "getitem [(tag child, v)] (tag child) = Inr v" by (simp add: getitem_def)
    have "\<exists>vs. map_of result1 ''object'' = Some (PyList vs) \<and> distinct (map fst result1)"
    proof (cases "tag child \<in> fst ` set result")
      case False
      then show ?thesis using "3.prems" True
        by (simp add: result1_def map_of_setitem distinct_setitem well_formed_def)
    next
      case in_keys: True
      then obtain w where "map_of result ''object'' = Some w"
        using True by (metis domD dom_map_of_conv_image_fst)
      then show ?thesis using "3.prems" in_keys
        by (auto simp: result1_def well_formed_def split: pyval.splits)
    qed
    then obtain vs where vs: "map_of result1 ''object'' = Some (PyList vs)"
      and d1: "distinct (map fst result1)" by blast
    have g1: "getitem result1 (tag child) = Inr (PyList vs)"
      using vs True by (simp add: getitem_def)
    have a1: "append_item (PyList vs) v = Inr (PyList (vs @ [v]))"
      by (simp add: append_item_def)
    have wf: "well_formed (setitem result1 (tag child) (PyList (vs @ [v])))"
      using d1 True by (simp add: well_formed_def distinct_setitem map_of_setitem)
    have nn: "\<not> tag child \<noteq> ''object''" using True by simp
    from "3.IH"(3)[OF v refl g nn result1_def g1 a1 wf] obtain result' where
      "for_child rest (setitem result1 (tag child) (PyList (vs @ [v]))) = Inr result'"
      "well_formed result'" by blast
    then show ?thesis using v g True g1 a1 unfolding result1_def
      by (simp add: Let_def)
  qed
qed

lemma parse_node_value: "recursive_parse_xml_to_dict x = Inr (PyDict [(tag x, node_value x)])"
  using parse_total(1)[of x] by (auto simp: node_value_def)

lemma node_value_not_list: "node_value x \<noteq> PyList vs"
  using parse_total(1)[of x] by (auto simp: node_value_def)

lemma setitem_setitem: "setitem (setitem d k v) k w = setitem d k w"
  by (induction d k v rule: setitem.induct) auto

lemma for_child_step_other:
  "tag child \<noteq> ''object'' \<Longrightarrow>
   for_child (child # rest) result = for_child rest (setitem result (tag child) (node_value child))"
  by (simp add: parse_node_value getitem_def)

lemma map_of_None_keys: "(k \<notin> fst ` set d) = (map_of d k = None)"
  by (simp add: map_of_eq_None_iff)

lemma for_child_step_object:
  assumes "well_formed result" and "tag child = ''object''"
  shows "for_child (child # rest) result =
         for_child rest (setitem result ''object'' (PyList (object_list result @ [node_value child])))"
proof (cases "map_of result ''object''")
  case None
  then show ?thesis using assms(2)
    by (simp add: parse_node_value getitem_def map_of_None_keys map_of_setitem append_item_def
        object_list_def setitem_setitem)
next
  case (Some w)
  then obtain vs where "w = PyList vs" using assms(1)
    by (auto simp: well_formed_def split: pyval.splits)
  then show ?thesis using Some assms(2)
    by (simp add: parse_node_value getitem_def map_of_None_keys append_item_def object_list_def)
qed

lemma well_formed_other:
  "well_formed d \<Longrightarrow> k \<noteq> ''object'' \<Longrightarrow> well_formed (setitem d k v)"
  by (simp add: well_formed_def distinct_setitem map_of_setitem)

lemma well_formed_object: "well_formed d \<Longrightarrow> well_formed (setitem d ''object'' (PyList vs))"
  by (simp add: well_formed_def distinct_setitem map_of_setitem)

lemma for_child_lookup:
  assumes "t \<noteq> ''object''"
  shows "well_formed result \<Longrightarrow> for_child cs result = Inr result' \<Longrightarrow>
     map_of result' t =
       (if filter (\<lambda>c. tag c = t) cs = [] then map_of result t
        else Some (node_value (last (filter (\<lambda>c. tag c = t) cs))))"
proof (induction cs arbitrary: result)
  case Nil
  then show ?case by simp
next
  case (Cons child rest)
  show ?case
  proof (cases "tag child = ''object''")
    case True
    have "for_child rest (setitem result ''object'' (PyList (object_list result @ [node_value child]))) = Inr result'"
      using Cons.prems for_child_step_object[OF Cons.prems(1) True] by simp
    from Cons.IH[OF well_formed_object[OF Cons.prems(1)] this] show ?thesis
      using True assms by (simp add: map_of_setitem)
  next
    case False
    have "for_child rest (setitem result (tag child) (node_value child)) = Inr result'"
      using Cons.prems for_child_step_other[OF False] by simp
    from Cons.IH[OF well_formed_other[OF Cons.prems(1) False] this] show ?thesis
      by (auto simp: map_of_setitem)
  qed
qed

lemma distinct_items:
  "distinct (map fst d) \<Longrightarrow> map_of d k = Some v \<Longrightarrow> filter (\<lambda>(k', _). k' = k) d = [(k, v)]"
proof (induction d)
  case Nil
  then show ?case by simp
next
  case (Cons a d)
  obtain k' v' where a: "a = (k', v')" by (cases a)
  show ?case
  proof (cases "k' = k")
    case True
    have "filter (\<lambda>(k', _). k' = k) d = []"
      using Cons.prems(1) a True by (force simp: filter_empty_conv)
    then show ?thesis using Cons.prems a True by simp
  next
    case False
    then show ?thesis using Cons a by simp
  qed
qed

text \<open>
  C8: when a node has children with a tag \<open>t\<close> other than \<open>object\<close>, the parser raises no
  error, and the dictionary of the node has exactly one item with the key \<open>t\<close>: the value
  the last child with that tag is parsed to. The earlier ones are overwritten, and the
  value is never a list.
\<close>

theorem repeated_tag_keeps_last:
  assumes "t \<noteq> ''object''" and "filter (\<lambda>c. tag c = t) cs \<noteq> []"
  shows "\<exists>result v.
           recursive_parse_xml_to_dict (Element r tx cs) = Inr (PyDict [(r, PyDict result)])
         \<and> recursive_parse_xml_to_dict (last (filter (\<lambda>c. tag c = t) cs)) = Inr (PyDict [(t, v)])
         \<and> filter (\<lambda>(k, _). k = t) result = [(t, v)]
         \<and> (\<forall>vs. v \<noteq> PyList vs)"
proof -
  let ?c = "last (filter (\<lambda>c. tag c = t) cs)"
  have ne: "cs \<noteq> []" using assms(2) by auto
  have wf0: "well_formed []" by (simp add: well_formed_def)
  from parse_total(2)[OF wf0, of cs] obtain result where
    res: "for_child cs [] = Inr result" and wf: "well_formed result" by blast
  have "?c \<in> set (filter (\<lambda>c. tag c = t) cs)" using assms(2) last_in_set by blast
  then have tc: "tag ?c = t" by simp
  have look: "map_of result t = Some (node_value ?c)"
    using for_child_lookup[OF assms(1) wf0 res] assms(2) by simp
  have "filter (\<lambda>(k, _). k = t) result = [(t, node_value ?c)]"
    using distinct_items[OF _ look] wf by (simp add: well_formed_def)
  moreover have "recursive_parse_xml_to_dict (Element r tx cs) = Inr (PyDict [(r, PyDict result)])"
    using ne res by simp
  moreover have "recursive_parse_xml_to_dict ?c = Inr (PyDict [(t, node_value ?c)])"
    using parse_node_value[of ?c] tc by simp
  ultimately show ?thesis using node_value_not_list by blast
qed

theorem repeated_tag_keeps_last_witness:
  "''name'' \<noteq> ''object''
   \<and> filter (\<lambda>c. tag c = ''name'')
        [Element ''name'' (Some ''cat'') [], Element ''object'' None [Element ''pose'' (Some ''Left'') []],
         Element ''name'' (Some ''dog'') []] \<noteq> []
   \<and> recursive_parse_xml_to_dict (Element ''annotation'' None
        [Element ''name'' (Some ''cat'') [], Element ''object'' None [Element ''pose'' (Some ''Left'') []],
         Element ''name'' (Some ''dog'') []])
      = Inr (PyDict [(''annotation'', PyDict [(''name'', PyStr ''dog''),
               (''object'', PyList [PyDict [(''pose'', PyStr ''Left'')]])])])"
  using repeated_tag_keeps_last[of "''name''"
        "[Element ''name'' (Some ''cat'') [], Element ''object'' None [Element ''pose'' (Some ''Left'') []],
         Element ''name'' (Some ''dog'') []]" "''annotation''" None]
  by (simp add: getitem_def append_item_def py_text_def)

text \<open>
  C2, as amended: for a node whose children are exactly two leaves with the tag
  \<open>object\<close> and the texts \<open>a\<close> and \<open>b\<close>, the parser gives the single-entry dictionary from
  the tag of the node to \<open>{object: seq}\<close>, where \<open>seq\<close> is the list of length 2 of the
  values of the children, taken out of their single-entry dictionaries: the string \<open>a\<close>,
  then the string \<open>b\<close>.
\<close>

theorem object_children_accumulate:
  "recursive_parse_xml_to_dict
     (Element r tx [Element ''object'' (Some a) [], Element ''object'' (Some b) []])
   = Inr (PyDict [(r, PyDict [(''object'', PyList [PyStr a, PyStr b])])])"
  by (simp add: getitem_def append_item_def py_text_def)

text \<open>
  The claim as stated has the dictionaries \<open>{object: A}\<close> and \<open>{object: B}\<close> as the
  elements of the list; the parser stores \<open>child_result[child.tag]\<close>, the strings.
\<close>

theorem object_children_counterexample:
  "recursive_parse_xml_to_dict
     (Element ''root'' None [Element ''object'' (Some ''A'') [], Element ''object'' (Some ''B'') []])
   \<noteq> Inr (PyDict [(''root'', PyDict [(''object'',
           PyList [PyDict [(''object'', PyStr ''A'')], PyDict [(''object'', PyStr ''B'')]])])])"
  by (simp add: getitem_def append_item_def py_text_def)

section \<open>The input pipeline\<close>

lemma read_dataset_no_patterns: "read_dataset M f d [] config nw wi = Inl ValueError"
  by (simp add: read_dataset_def tf_concat_def)

lemma read_dataset_eq:
  assumes "pats \<noteq> []"
  shows "read_dataset M f d pats config nw wi =
     Inr \<lparr>tensor_slices = concat (map M pats),
      transformations =
        [Shard nw wi, Repeat (or_None (num_epochs config))]
        @ (if shuffle config then [Shuffle (filenames_shuffle_buffer_size config) True] else [])
        @ [Interleave f (min (num_readers config) (length (concat (map M pats)))) 1]
        @ (if shuffle config then [Shuffle (shuffle_buffer_size config) True] else [])
        @ [Map d (num_readers config), Prefetch (prefetch_buffer_size config)]\<rparr>"
  using assms
  by (simp add: read_dataset_def tf_concat_def Let_def from_tensor_slices_def shard_def
      repeat_def shuffle_dataset_def interleave_def map_dataset_def prefetch_def)

text \<open>
  C1: when there is a pattern, \<open>read_dataset\<close> returns the dataset that slices the
  expanded patterns and applies to them exactly the stage sequence, in its order: shard,
  repeat, the shuffle of the file names when shuffling is on (reshuffled in each pass),
  interleave with block length 1, the shuffle of the records when shuffling is on,
  decode, prefetch. (With an empty list of patterns the call raises and composes
  nothing.)
\<close>

theorem read_dataset_stage_sequence:
  assumes "input_files \<noteq> []"
  shows "read_dataset M f d input_files config nw wi =
     Inr \<lparr>tensor_slices = expand_patterns M input_files,
      transformations =
        stage_sequence f d config nw wi (length (expand_patterns M input_files))\<rparr>"
  using assms
  by (simp add: read_dataset_eq stage_sequence_def expand_patterns_def or_None_def
      split: option.splits)

theorem read_dataset_stage_sequence_witness:
  "[''train-*''] \<noteq> []
   \<and> read_dataset example_files (\<lambda>x. [x]) (\<lambda>r. r) [''train-*''] (example_config (Some 0)) 2 0 =
     Inr \<lparr>tensor_slices = [''train-0'', ''train-1'', ''train-2''],
      transformations =
        [Shard 2 0, Repeat None, Interleave (\<lambda>x. [x]) 3 1, Map (\<lambda>r. r) 4, Prefetch 8]\<rparr>"
proof -
  have ne: "[''train-*''] \<noteq> []" by simp
  show ?thesis
    using read_dataset_stage_sequence[OF ne, of example_files "\<lambda>x. [x]" "\<lambda>r. r"
        "example_config (Some 0)" 2 0]
    by (simp add: stage_sequence_def expand_patterns_def example_files_def example_config_def)
qed

text \<open>
  C6: when there is a pattern, the dataset has one interleave, its cycle length is the
  minimum of \<open>num_readers\<close> and the number of the paths all patterns match together
  (counted before sharding), and its block length is 1.
\<close>

theorem interleave_cycle_length:
  assumes "input_files \<noteq> []"
  shows "\<exists>ds. read_dataset M f d input_files config nw wi = Inr ds
         \<and> filter is_interleave (transformations ds) =
             [Interleave f (min (num_readers config) (length (concat (map M input_files)))) 1]
         \<and> length (concat (map M input_files)) = sum_list (map (\<lambda>p. length (M p)) input_files)"
  using assms by (simp add: read_dataset_eq length_concat comp_def)

theorem interleave_cycle_length_witness:
  "[''train-*'', ''train-1*''] \<noteq> []
   \<and> (\<exists>ds. read_dataset example_files (\<lambda>x. [x]) (\<lambda>r. r) [''train-*'', ''train-1*'']
              (example_config None) 1 0 = Inr ds
          \<and> filter is_interleave (transformations ds) = [Interleave (\<lambda>x. [x]) 4 1])
   \<and> (\<exists>ds. read_dataset example_files (\<lambda>x. [x]) (\<lambda>r. r) [''train-1*'']
              (example_config None) 1 0 = Inr ds
          \<and> filter is_interleave (transformations ds) = [Interleave (\<lambda>x. [x]) 1 1])"
proof -
  have ne: "[''train-*'', ''train-1*''] \<noteq> []" and ne1: "[''train-1*''] \<noteq> []" by simp_all
  have m: "min (num_readers (example_config None))
             (length (concat (map example_files [''train-*'', ''train-1*'']))) = 4"
    and m1: "min (num_readers (example_config None))
             (length (concat (map example_files [''train-1*'']))) = 1"
    by (simp_all add: example_files_def example_config_def)
  from interleave_cycle_length[OF ne, of example_files "\<lambda>x. [x]" "\<lambda>r. r" "example_config None" 1 0]
  have a: "\<exists>ds. read_dataset example_files (\<lambda>x. [x]) (\<lambda>r. r) [''train-*'', ''train-1*'']
              (example_config None) 1 0 = Inr ds
          \<and> filter is_interleave (transformations ds) = [Interleave (\<lambda>x. [x]) 4 1]"
    unfolding m by blast
  from interleave_cycle_length[OF ne1, of example_files "\<lambda>x. [x]" "\<lambda>r. r" "example_config None" 1 0]
  have b: "\<exists>ds. read_dataset example_files (\<lambda>x. [x]) (\<lambda>r. r) [''train-1*'']
              (example_config None) 1 0 = Inr ds
          \<and> filter is_interleave (transformations ds) = [Interleave (\<lambda>x. [x]) 1 1]"
    unfolding m1 by blast
  show ?thesis using ne a b by blast
qed

subsection \<open>Sharding\<close>

lemma shard_elems_snoc:
  "shard_elems n i (xs @ [x]) = shard_elems n i xs @ (if length xs mod n = i then [x] else [])"
  by (simp add: shard_elems_def shard_indexed_def enumerate_append_eq)

lemma shard_elems_nths: "shard_elems n i xs = nths xs {k. k mod n = i}"
proof (induction xs rule: rev_induct)
  case Nil
  then show ?case by (simp add: shard_elems_def shard_indexed_def)
next
  case (snoc x xs)
  then show ?case by (simp add: shard_elems_snoc nths_append)
qed

lemma set_shard_indexed:
  "set (shard_indexed n i xs) = {(k, xs ! k) | k. k < length xs \<and> k mod n = i}"
  by (auto simp: shard_indexed_def in_set_enumerate_eq)

lemma shard_indexed_disjoint:
  "i \<noteq> j \<Longrightarrow> set (shard_indexed n i xs) \<inter> set (shard_indexed n j xs) = {}"
  by (auto simp: set_shard_indexed)

lemma shard_elems_union:
  assumes "0 < n"
  shows "(\<Union>i<n. set (shard_elems n i xs)) = set xs"
proof
  show "(\<Union>i<n. set (shard_elems n i xs)) \<subseteq> set xs"
    by (auto simp: shard_elems_nths dest: in_set_nthsD)
  show "set xs \<subseteq> (\<Union>i<n. set (shard_elems n i xs))"
  proof
    fix x assume "x \<in> set xs"
    then obtain k where k: "k < length xs" "xs ! k = x" by (auto simp: in_set_conv_nth)
    have "k mod n < n" using assms by simp
    moreover have "x \<in> set (shard_elems n (k mod n) xs)"
      using k by (auto simp: shard_elems_nths set_nths)
    ultimately show "x \<in> (\<Union>i<n. set (shard_elems n i xs))" by blast
  qed
qed

lemma shard_elems_disjoint:
  assumes "distinct xs" and "i \<noteq> j"
  shows "set (shard_elems n i xs) \<inter> set (shard_elems n j xs) = {}"
  using assms by (auto simp: shard_elems_nths set_nths nth_eq_iff_index_eq)
lemma shard_elems_nth_aux:
  assumes "i < n"
  shows "(\<forall>k. k < length (shard_elems n i xs) \<longleftrightarrow> k * n + i < length xs)
       \<and> (\<forall>k<length (shard_elems n i xs). shard_elems n i xs ! k = xs ! (k * n + i))"
proof (induction xs rule: rev_induct)
  case Nil
  then show ?case by (simp add: shard_elems_def shard_indexed_def)
next
  case (snoc x xs)
  let ?m = "length (shard_elems n i xs)"
  have len: "\<And>k. k < ?m \<longleftrightarrow> k * n + i < length xs" using snoc by blast
  have nth: "\<And>k. k < ?m \<Longrightarrow> shard_elems n i xs ! k = xs ! (k * n + i)" using snoc by blast
  have npos: "0 < n" using assms by simp
  show ?case
  proof (cases "length xs mod n = i")
    case True
    let ?q = "length xs div n"
    have L: "length xs = ?q * n + i" using True by (metis div_mult_mod_eq)
    have "\<not> ?q < ?m" using len[of ?q] L by simp
    moreover have "\<not> ?m * n + i < length xs" using len[of ?m] by simp
    then have "?q * n \<le> ?m * n" using L by linarith
    then have "?q \<le> ?m" using npos by simp
    ultimately have "?m = ?q" by simp
    then have m: "?m * n + i = length xs" using L by simp
    have s: "shard_elems n i (xs @ [x]) = shard_elems n i xs @ [x]"
      using True by (simp add: shard_elems_snoc)
    have a: "k < Suc ?m \<longleftrightarrow> k * n + i < Suc (length xs)" for k
    proof -
      have "k * n + i < Suc (length xs) \<longleftrightarrow> k * n \<le> ?m * n" using m by linarith
      also have "\<dots> \<longleftrightarrow> k \<le> ?m" using npos by simp
      finally show ?thesis by auto
    qed
    have b: "(shard_elems n i xs @ [x]) ! k = (xs @ [x]) ! (k * n + i)" if "k < Suc ?m" for k
    proof (cases "k < ?m")
      case True
      then show ?thesis using nth[OF True] len[of k] by (simp add: nth_append)
    next
      case False
      then have "k = ?m" using that by simp
      then show ?thesis using m by (simp add: nth_append)
    qed
    show ?thesis using a b by (simp add: s)
  next
    case False
    have ne: "\<And>k. k * n + i \<noteq> length xs"
      by (metis False assms mod_less mod_mult_self3)
    have s: "shard_elems n i (xs @ [x]) = shard_elems n i xs"
      using False by (simp add: shard_elems_snoc)
    have a: "k < ?m \<longleftrightarrow> k * n + i < Suc (length xs)" for k
      using len[of k] ne[of k] by linarith
    have b: "shard_elems n i xs ! k = (xs @ [x]) ! (k * n + i)" if "k < ?m" for k
      using nth[OF that] len[of k] that by (simp add: nth_append)
    show ?thesis using a b by (simp add: s)
  qed
qed

lemma shard_elems_nth:
  "i < n \<Longrightarrow> k * n + i < length xs \<Longrightarrow> shard_elems n i xs ! k = xs ! (k * n + i)"
  using shard_elems_nth_aux[of i n xs] by blast

lemma shard_elems_length_iff:
  "i < n \<Longrightarrow> k < length (shard_elems n i xs) \<longleftrightarrow> k * n + i < length xs"
  using shard_elems_nth_aux[of i n xs] by blast

lemma seq_nth_shard_seq:
  assumes "i < n"
  shows "seq_nth (shard_seq n i s) k = seq_nth s (k * n + i)"
proof (cases s)
  case (Finite xs)
  then show ?thesis
    using shard_elems_nth[OF assms, of k xs] shard_elems_length_iff[OF assms, of k xs] by simp
next
  case (Forever xs)
  show ?thesis
  proof (cases "xs = []")
    case True
    then show ?thesis using Forever by simp
  next
    case False
    then have p: "0 < length xs" by simp
    have "((k mod length xs) * n + i) mod length xs = (k * n + i) mod length xs"
      by (metis mod_add_left_eq mod_mult_left_eq)
    then show ?thesis using Forever False p by simp
  qed
qed

lemma file_paths_shard:
  assumes "read_dataset M f d pats config nw wi = Inr ds"
  shows "file_paths (Suc 0) ds =
     (if wi < nw then Some (Finite (shard_elems nw wi (concat (map M pats)))) else None)"
proof -
  have "pats \<noteq> []" using assms by (auto simp: read_dataset_no_patterns)
  from read_dataset_eq[OF this, of M f d config nw wi] assms show ?thesis
    by (auto simp: file_paths_def)
qed

text \<open>
  C3, as amended: with \<open>num_workers > 0\<close> (and a pattern to read), the sharding stage
  gives worker \<open>i\<close> exactly the files at the positions \<open>k\<close> with \<open>k mod num_workers = i\<close>,
  in their order. The union of the files of all workers is the set of all expanded
  files, and no position is given to two workers. The sets of files of two workers are
  disjoint when no path stands twice in the expanded list.
\<close>

theorem shard_partition:
  assumes "0 < num_workers" and "input_files \<noteq> []"
  shows "(\<forall>i<num_workers. \<exists>ds.
            read_dataset M f d input_files config num_workers i = Inr ds
          \<and> file_paths 1 ds =
              Some (Finite (shard_elems num_workers i (concat (map M input_files))))
          \<and> shard_elems num_workers i (concat (map M input_files)) =
              nths (concat (map M input_files)) {k. k mod num_workers = i})
       \<and> (\<Union>i<num_workers. set (shard_elems num_workers i (concat (map M input_files))))
           = set (concat (map M input_files))
       \<and> (\<forall>i j. i \<noteq> j \<longrightarrow>
            set (shard_indexed num_workers i (concat (map M input_files)))
            \<inter> set (shard_indexed num_workers j (concat (map M input_files))) = {})
       \<and> (distinct (concat (map M input_files)) \<longrightarrow>
            (\<forall>i j. i \<noteq> j \<longrightarrow>
               set (shard_elems num_workers i (concat (map M input_files)))
               \<inter> set (shard_elems num_workers j (concat (map M input_files))) = {}))"
proof -
  have "\<exists>ds. read_dataset M f d input_files config num_workers i = Inr ds
          \<and> file_paths 1 ds =
              Some (Finite (shard_elems num_workers i (concat (map M input_files))))"
    if "i < num_workers" for i
    using that file_paths_shard[of M f d input_files config num_workers i]
      read_dataset_eq[OF assms(2), of M f d config num_workers i]
    by simp
  then show ?thesis
    using assms(1)
    by (simp add: shard_elems_nths [symmetric] shard_elems_union
        shard_indexed_disjoint shard_elems_disjoint)
qed

theorem shard_partition_witness:
  "0 < (2::nat) \<and> [''train-*''] \<noteq> []
   \<and> (\<exists>ds. read_dataset example_files (\<lambda>x. [x]) (\<lambda>r. r) [''train-*'']
        (example_config None) 2 0 = Inr ds
        \<and> file_paths 1 ds = Some (Finite [''train-0'', ''train-2'']))
   \<and> (\<exists>ds. read_dataset example_files (\<lambda>x. [x]) (\<lambda>r. r) [''train-*'']
        (example_config None) 2 1 = Inr ds
        \<and> file_paths 1 ds = Some (Finite [''train-1'']))
   \<and> nths [''train-0'', ''train-1'', ''train-2''] {k. k mod 2 = 0} = [''train-0'', ''train-2'']
   \<and> nths [''train-0'', ''train-1'', ''train-2''] {k. k mod 2 = 1} = [''train-1'']
   \<and> distinct [''train-0'', ''train-1'', ''train-2'']
   \<and> set [''train-0'', ''train-2''] \<inter> set [''train-1''] = {}
   \<and> set [''train-0'', ''train-2''] \<union> set [''train-1'']
       = set [''train-0'', ''train-1'', ''train-2'']"
proof -
  let ?F = "concat (map example_files [''train-*''])"
  have pos: "0 < (2::nat)" and ne: "[''train-*''] \<noteq> []" by simp_all
  note p = shard_partition[OF pos ne, of example_files "\<lambda>x. [x]" "\<lambda>r. r" "example_config None"]
  have "\<forall>i<2. \<exists>ds. read_dataset example_files (\<lambda>x. [x]) (\<lambda>r. r) [''train-*'']
            (example_config None) 2 i = Inr ds
          \<and> file_paths 1 ds = Some (Finite (shard_elems 2 i ?F))
          \<and> shard_elems 2 i ?F = nths ?F {k. k mod 2 = i}"
    using p by blast
  then have w0: "\<exists>ds. read_dataset example_files (\<lambda>x. [x]) (\<lambda>r. r) [''train-*'']
            (example_config None) 2 0 = Inr ds
          \<and> file_paths 1 ds = Some (Finite (shard_elems 2 0 ?F))
          \<and> shard_elems 2 0 ?F = nths ?F {k. k mod 2 = 0}"
    and w1: "\<exists>ds. read_dataset example_files (\<lambda>x. [x]) (\<lambda>r. r) [''train-*'']
            (example_config None) 2 1 = Inr ds
          \<and> file_paths 1 ds = Some (Finite (shard_elems 2 1 ?F))
          \<and> shard_elems 2 1 ?F = nths ?F {k. k mod 2 = 1}"
    by simp_all
  have F: "?F = [''train-0'', ''train-1'', ''train-2'']" by (simp add: example_files_def)
  have d: "distinct ?F" unfolding F by simp
  have "distinct ?F \<longrightarrow> (\<forall>i j. i \<noteq> j \<longrightarrow>
          set (shard_elems 2 i ?F) \<inter> set (shard_elems 2 j ?F) = {})"
    using p by blast
  moreover have "(0::nat) \<noteq> 1" by simp
  ultimately have dis: "set (shard_elems 2 0 ?F) \<inter> set (shard_elems 2 1 ?F) = {}"
    using d by blast
  have "(\<Union>i<2. set (shard_elems 2 i ?F)) = set ?F" using p by blast
  moreover have "{..<2::nat} = {0, 1}" by auto
  ultimately have un: "set (shard_elems 2 0 ?F) \<union> set (shard_elems 2 1 ?F) = set ?F"
    by simp
  have s0: "shard_elems 2 0 [''train-0'', ''train-1'', ''train-2''] = [''train-0'', ''train-2'']"
    by (simp add: shard_elems_def shard_indexed_def)
  have s1: "shard_elems 2 1 [''train-0'', ''train-1'', ''train-2''] = [''train-1'']"
    by (simp add: shard_elems_def shard_indexed_def)
  have n0: "nths [''train-0'', ''train-1'', ''train-2''] {k. k mod 2 = 0} = [''train-0'', ''train-2'']"
    and n1: "nths [''train-0'', ''train-1'', ''train-2''] {k. k mod 2 = 1} = [''train-1'']"
    using w0 w1 unfolding F s0 s1 by auto
  have a0: "\<exists>ds. read_dataset example_files (\<lambda>x. [x]) (\<lambda>r. r) [''train-*'']
        (example_config None) 2 0 = Inr ds
        \<and> file_paths 1 ds = Some (Finite [''train-0'', ''train-2''])"
    using w0 unfolding F s0 by blast
  have a1: "\<exists>ds. read_dataset example_files (\<lambda>x. [x]) (\<lambda>r. r) [''train-*'']
        (example_config None) 2 1 = Inr ds
        \<and> file_paths 1 ds = Some (Finite [''train-1''])"
    using w1 unfolding F s1 by blast
  have rest: "distinct [''train-0'', ''train-1'', ''train-2'']
     \<and> set [''train-0'', ''train-2''] \<inter> set [''train-1''] = {}
     \<and> set [''train-0'', ''train-2''] \<union> set [''train-1'']
         = set [''train-0'', ''train-1'', ''train-2'']"
    using d dis un unfolding F s0 s1 by simp
  show ?thesis using pos ne a0 a1 n0 n1 rest by blast
qed

text \<open>
  The claim as stated fails when a path stands twice in the expanded list, as it does
  when two patterns match the same file: with the patterns \<open>train-*\<close> and \<open>train-1*\<close>
  and three workers, the workers 0 and 1 both get \<open>train-1\<close>.
\<close>

theorem shard_overlap_counterexample:
  "(\<exists>ds. read_dataset example_files (\<lambda>x. [x]) (\<lambda>r. r) [''train-*'', ''train-1*'']
        (example_config None) 3 0 = Inr ds
        \<and> file_paths 1 ds = Some (Finite [''train-0'', ''train-1'']))
   \<and> (\<exists>ds. read_dataset example_files (\<lambda>x. [x]) (\<lambda>r. r) [''train-*'', ''train-1*'']
        (example_config None) 3 1 = Inr ds
        \<and> file_paths 1 ds = Some (Finite [''train-1'']))
   \<and> set (shard_elems 3 0 (concat (map example_files [''train-*'', ''train-1*''])))
       \<inter> set (shard_elems 3 1 (concat (map example_files [''train-*'', ''train-1*''])))
      \<noteq> {}"
proof -
  have ne: "[''train-*'', ''train-1*''] \<noteq> []" by simp
  have F: "concat (map example_files [''train-*'', ''train-1*''])
             = [''train-0'', ''train-1'', ''train-2'', ''train-1'']"
    by (simp add: example_files_def)
  have s0: "shard_elems 3 0 [''train-0'', ''train-1'', ''train-2'', ''train-1'']
              = [''train-0'', ''train-1'']"
    and s1: "shard_elems 3 (Suc 0) [''train-0'', ''train-1'', ''train-2'', ''train-1'']
              = [''train-1'']"
    by (simp_all add: shard_elems_def shard_indexed_def)
  obtain ds0 :: "(string, string) dataset" where
    r0: "read_dataset example_files (\<lambda>x. [x]) (\<lambda>r. r) [''train-*'', ''train-1*'']
        (example_config None) 3 0 = Inr ds0"
    using read_dataset_eq[OF ne] by blast
  obtain ds1 :: "(string, string) dataset" where
    r1: "read_dataset example_files (\<lambda>x. [x]) (\<lambda>r. r) [''train-*'', ''train-1*'']
        (example_config None) 3 1 = Inr ds1"
    using read_dataset_eq[OF ne] by blast
  have f0: "file_paths 1 ds0 = Some (Finite [''train-0'', ''train-1''])"
    using file_paths_shard[OF r0] unfolding F s0 by simp
  have f1: "file_paths 1 ds1 = Some (Finite [''train-1''])"
    using file_paths_shard[OF r1] unfolding F One_nat_def s1 by simp
  have i: "set (shard_elems 3 0 (concat (map example_files [''train-*'', ''train-1*''])))
       \<inter> set (shard_elems 3 1 (concat (map example_files [''train-*'', ''train-1*''])))
      \<noteq> {}"
    unfolding F One_nat_def s0 s1 by simp
  show ?thesis using r0 r1 f0 f1 i by blast
qed

subsection \<open>Repetition\<close>

lemma concat_replicate_nth:
  "k < n * length xs \<Longrightarrow> concat (replicate n xs) ! k = xs ! (k mod length xs)"
proof (induction n arbitrary: k)
  case 0
  then show ?case by simp
next
  case (Suc n)
  show ?case
  proof (cases "k < length xs")
    case True
    then show ?thesis by (simp add: nth_append)
  next
    case False
    then have "k - length xs < n * length xs" using Suc.prems by simp
    from Suc.IH[OF this] show ?thesis using False
      by (simp add: nth_append le_mod_geq)
  qed
qed

lemma length_concat_replicate: "length (concat (replicate n xs)) = n * length xs"
  by (induction n) auto

lemma file_paths_repeat:
  assumes "read_dataset M f d pats config nw wi = Inr ds"
  shows "file_paths 2 ds =
     (if wi < nw
      then Some (repeat_seq (or_None (num_epochs config))
                   (Finite (shard_elems nw wi (concat (map M pats)))))
      else None)"
proof -
  have "pats \<noteq> []" using assms by (auto simp: read_dataset_no_patterns)
  from read_dataset_eq[OF this, of M f d config nw wi] assms show ?thesis
    by (auto simp: file_paths_def numeral_2_eq_2)
qed

end
